theory Spec2Isabelle
  imports Main "HOL-Library.Word"
begin

section \<open>License record of an IDA Pro database: \<^verbatim>\<open>scripts/dump_user.py\<close>\<close>

text \<open>
  A shallow embedding of the four functions of \<^verbatim>\<open>scripts/dump_user.py\<close>
  (\<^verbatim>\<open>is_encrypted\<close>, \<^verbatim>\<open>decrypt\<close>, \<^verbatim>\<open>parse_user_data\<close>, \<^verbatim>\<open>get_userdata\<close>)
  and of the Python 3 built-ins they call. A \<^verbatim>\<open>bytes\<close> object is a list of 8-bit
  words, a Python \<^verbatim>\<open>int\<close> is an \<^typ>\<open>int\<close>, a raised exception is the left
  injection of a sum.
\<close>

subsection \<open>Bytes, exceptions, Python values\<close>

type_synonym byte = "8 word"

datatype error =
    ValueError
  | NotImplementedError
  | UnicodeDecodeError
  | OverflowError
  | StructError
  | TypeError
  | KeyError

text \<open>
  The two kinds of Python object that meet in the comparison of line 66: an \<^verbatim>\<open>int\<close>
  and a \<^verbatim>\<open>tuple\<close> of ints. Python's \<^verbatim>\<open>==\<close> between a tuple and an int is
  \<^verbatim>\<open>False\<close>: neither type knows the other.
\<close>

datatype pyval = PyInt int | PyTuple "int list"

fun py_eq :: "pyval \<Rightarrow> pyval \<Rightarrow> bool" where
  "py_eq (PyInt a) (PyInt b) = (a = b)"
| "py_eq (PyTuple xs) (PyTuple ys) = (xs = ys)"
| "py_eq (PyInt a) (PyTuple ys) = False"
| "py_eq (PyTuple xs) (PyInt b) = False"

text \<open>
  Sequencing: an exception raised by a statement ends the function, a value goes on to
  the statements after it.
\<close>

definition bind_err :: "error + 'a \<Rightarrow> ('a \<Rightarrow> error + 'b) \<Rightarrow> error + 'b" where
  "bind_err r f = (case r of Inl e \<Rightarrow> Inl e | Inr v \<Rightarrow> f v)"

text \<open>
  The assignment \<^verbatim>\<open>a, b, c = t\<close>: a \<^verbatim>\<open>ValueError\<close> unless \<open>t\<close> has three
  elements.
\<close>

fun unpack3 :: "int list \<Rightarrow> error + (int \<times> int \<times> int)" where
  "unpack3 [a, b, c] = Inr (a, b, c)"
| "unpack3 t = Inl ValueError"

subsection \<open>\<^verbatim>\<open>bytes.find\<close> and slicing\<close>

text \<open>
  \<^verbatim>\<open>buf.find(sub, start)\<close>: the lowest index \<open>i \<ge> start\<close> at which \<open>sub\<close>
  occurs in \<open>buf\<close>, and \<open>-1\<close> when there is none. \<open>find_scan sub ys i\<close> scans
  the rest \<open>ys\<close> of the buffer, whose first byte has index \<open>i\<close>.
\<close>

fun find_scan :: "byte list \<Rightarrow> byte list \<Rightarrow> nat \<Rightarrow> int" where
  "find_scan sub [] i = (if sub = [] then int i else -1)"
| "find_scan sub (x # xs) i =
     (if take (length sub) (x # xs) = sub then int i else find_scan sub xs (Suc i))"

definition bytes_find :: "byte list \<Rightarrow> byte list \<Rightarrow> nat \<Rightarrow> int" where
  "bytes_find buf sub start =
     (if length buf < start then -1 else find_scan sub (drop start buf) start)"

text \<open>
  \<^verbatim>\<open>buf[lo:hi]\<close>: a negative bound counts from the end, both bounds are clamped to
  \<open>0 .. len(buf)\<close>, and the slice is empty when the bounds cross.
\<close>

definition clamp_index :: "nat \<Rightarrow> int \<Rightarrow> nat" where
  "clamp_index n i = (if i < 0 then nat (max (i + int n) 0) else min (nat i) n)"

definition bytes_slice :: "byte list \<Rightarrow> int \<Rightarrow> int \<Rightarrow> byte list" where
  "bytes_slice buf lo hi =
     (let a = clamp_index (length buf) lo; b = clamp_index (length buf) hi
      in take (b - a) (drop a buf))"

subsection \<open>\<^verbatim>\<open>is_encrypted\<close>\<close>

text \<open>\<^verbatim>\<open>return buf.find(b'\x00' * 4) >= 0x80\<close>\<close>

definition is_encrypted :: "byte list \<Rightarrow> bool" where
  "is_encrypted buf = (0x80 \<le> bytes_find buf (replicate 4 0) 0)"

subsection \<open>\<^verbatim>\<open>decrypt\<close>\<close>

definition HEXRAYS_PUBKEY :: int where
  "HEXRAYS_PUBKEY = 0x93AF7A8E3A6EB93D1B4D1FB7EC29299D2BC8F3CE5F84BFE88E47DDBDD5550C3CE3D2B16A2E2FBD0FBD919E8038BB05752EC92DD1498CB283AA087A93184F1DD9DD5D5DF7857322DFCD70890F814B58448071BBABB0FC8A7868B62EB29CC2664C8FE61DFBC5DB0EE8BF6ECF0B65250514576C4384582211896E5478F95C42FDED"

text \<open>\<^verbatim>\<open>int.from_bytes(bs, 'little')\<close>: the first byte is the least significant.\<close>

fun from_bytes_little :: "byte list \<Rightarrow> int" where
  "from_bytes_little [] = 0"
| "from_bytes_little (b # bs) = uint b + 256 * from_bytes_little bs"

text \<open>
  \<^verbatim>\<open>n.to_bytes(len, 'big')\<close>: \<open>len\<close> base-256 digits of \<open>n\<close>, the most
  significant first; \<^verbatim>\<open>OverflowError\<close> when \<open>n\<close> is negative or does not fit.
\<close>

fun big_digits :: "nat \<Rightarrow> int \<Rightarrow> byte list" where
  "big_digits 0 n = []"
| "big_digits (Suc k) n = big_digits k (n div 256) @ [word_of_int (n mod 256)]"

definition to_bytes_big :: "int \<Rightarrow> nat \<Rightarrow> error + byte list" where
  "to_bytes_big n len =
     (if n < 0 \<or> 256 ^ len \<le> n then Inl OverflowError else Inr (big_digits len n))"

text \<open>
  \<^verbatim>\<open>pow(b, e, m)\<close> for an exponent \<open>e \<ge> 0\<close> and a modulus \<open>m > 0\<close>, the only
  way \<^verbatim>\<open>decrypt\<close> calls it.
\<close>

definition pow_mod :: "int \<Rightarrow> nat \<Rightarrow> int \<Rightarrow> int" where
  "pow_mod b e m = b ^ e mod m"

text \<open>
  \<^verbatim>\<open>enc = int.from_bytes(buf[:0x80], 'little')\<close>,
  \<^verbatim>\<open>dec = pow(enc, 0x13, HEXRAYS_PUBKEY)\<close>,
  \<^verbatim>\<open>return dec.to_bytes(0x80, 'big')\<close>
\<close>

definition decrypt :: "byte list \<Rightarrow> error + byte list" where
  "decrypt buf =
     (let enc = from_bytes_little (bytes_slice buf 0 0x80);
          dec = pow_mod enc 0x13 HEXRAYS_PUBKEY
      in to_bytes_big dec 0x80)"

subsection \<open>\<^verbatim>\<open>struct.unpack_from\<close>\<close>

text \<open>
  The format codes the decoder uses: \<^verbatim>\<open>B\<close> (unsigned char), \<^verbatim>\<open>H\<close>
  (unsigned short) and \<^verbatim>\<open>I\<close> (unsigned int), of 1, 2 and 4 bytes, read
  little-endian and without padding. \<^verbatim>\<open>unpack_from\<close> returns a tuple with one int
  per code, and raises \<^verbatim>\<open>struct.error\<close> when the buffer ends before the last field.
\<close>

datatype fmt = Fmt_B | Fmt_H | Fmt_I

fun fmt_size :: "fmt \<Rightarrow> nat" where
  "fmt_size Fmt_B = 1"
| "fmt_size Fmt_H = 2"
| "fmt_size Fmt_I = 4"

fun unpack_fields :: "fmt list \<Rightarrow> byte list \<Rightarrow> int list" where
  "unpack_fields [] bs = []"
| "unpack_fields (f # fs) bs =
     from_bytes_little (take (fmt_size f) bs) # unpack_fields fs (drop (fmt_size f) bs)"

definition unpack_from :: "fmt list \<Rightarrow> byte list \<Rightarrow> nat \<Rightarrow> error + int list" where
  "unpack_from fs buf off =
     (if length buf < off + sum_list (map fmt_size fs) then Inl StructError
      else Inr (unpack_fields fs (drop off buf)))"

subsection \<open>The format \<^verbatim>\<open>%02X\<close>\<close>

definition hexdigit :: "nat \<Rightarrow> char" where
  "hexdigit d = ''0123456789ABCDEF'' ! d"

function hex_upper :: "nat \<Rightarrow> string" where
  "hex_upper n = (if n < 16 then [hexdigit n] else hex_upper (n div 16) @ [hexdigit (n mod 16)])"
  by pat_completeness auto
termination
  by (relation "measure id") auto

declare hex_upper.simps [simp del]

text \<open>
  \<^verbatim>\<open>'%02X' % n\<close>: the uppercase hexadecimal digits of \<open>|n|\<close> after the sign,
  filled with zeros to two characters in all.
\<close>

definition fmt_02X :: "int \<Rightarrow> string" where
  "fmt_02X n =
     (let sign = (if n < 0 then [CHR ''-''] else []); s = hex_upper (nat \<bar>n\<bar>)
      in sign @ replicate (2 - length sign - length s) CHR ''0'' @ s)"

text \<open>
  \<^verbatim>\<open>"%02X-%02X%02X-%02X%02X-%02X" % t\<close>: a \<^verbatim>\<open>TypeError\<close> unless the tuple
  \<open>t\<close> has exactly six elements.
\<close>

fun format_id :: "int list \<Rightarrow> error + string" where
  "format_id [b0, b1, b2, b3, b4, b5] =
     Inr (fmt_02X b0 @ ''-'' @ fmt_02X b1 @ fmt_02X b2 @ ''-'' @ fmt_02X b3 @ fmt_02X b4
          @ ''-'' @ fmt_02X b5)"
| "format_id t = Inl TypeError"

subsection \<open>\<^verbatim>\<open>bytes.decode('utf-8')\<close>\<close>

text \<open>
  The strict decoder: the well-formed byte sequences of UTF-8 and nothing else (no
  overlong form, no surrogate, nothing above U+10FFFF). A Python \<^verbatim>\<open>str\<close> is the list
  of its code points.
\<close>

definition is_cont :: "byte \<Rightarrow> bool" where
  "is_cont b = (0x80 \<le> b \<and> b \<le> 0xBF)"

definition cont_bits :: "byte \<Rightarrow> nat" where
  "cont_bits b = unat b mod 64"

definition cons_cp :: "nat \<Rightarrow> error + nat list \<Rightarrow> error + nat list" where
  "cons_cp c r = bind_err r (\<lambda>cs. Inr (c # cs))"

fun decode_utf8 :: "byte list \<Rightarrow> error + nat list" where
  "decode_utf8 [] = Inr []"
| "decode_utf8 (b0 # bs) =
     (if b0 < 0x80 then cons_cp (unat b0) (decode_utf8 bs)
      else if 0xC2 \<le> b0 \<and> b0 \<le> 0xDF then
        (case bs of
           b1 # r \<Rightarrow>
             if is_cont b1
             then cons_cp ((unat b0 mod 32) * 64 + cont_bits b1) (decode_utf8 r)
             else Inl UnicodeDecodeError
         | _ \<Rightarrow> Inl UnicodeDecodeError)
      else if 0xE0 \<le> b0 \<and> b0 \<le> 0xEF then
        (case bs of
           b1 # b2 # r \<Rightarrow>
             if (if b0 = 0xE0 then 0xA0 else 0x80) \<le> b1
                \<and> b1 \<le> (if b0 = 0xED then 0x9F else 0xBF) \<and> is_cont b2
             then cons_cp ((unat b0 mod 16) * 4096 + cont_bits b1 * 64 + cont_bits b2)
                    (decode_utf8 r)
             else Inl UnicodeDecodeError
         | _ \<Rightarrow> Inl UnicodeDecodeError)
      else if 0xF0 \<le> b0 \<and> b0 \<le> 0xF4 then
        (case bs of
           b1 # b2 # b3 # r \<Rightarrow>
             if (if b0 = 0xF0 then 0x90 else 0x80) \<le> b1
                \<and> b1 \<le> (if b0 = 0xF4 then 0x8F else 0xBF) \<and> is_cont b2 \<and> is_cont b3
             then cons_cp ((unat b0 mod 8) * 262144 + cont_bits b1 * 4096
                           + cont_bits b2 * 64 + cont_bits b3) (decode_utf8 r)
             else Inl UnicodeDecodeError
         | _ \<Rightarrow> Inl UnicodeDecodeError)
      else Inl UnicodeDecodeError)"

subsection \<open>\<^verbatim>\<open>datetime.datetime.utcfromtimestamp\<close>\<close>

record datetime =
  year :: int
  month :: int
  day :: int
  hour :: int
  minute :: int
  second :: int
  microsecond :: int

text \<open>
  The proleptic Gregorian calendar, by counting: the days since 0001-01-01 are reduced
  by whole cycles of 400 years (146097 days), then by whole years, then by whole months.
\<close>

definition is_leap :: "int \<Rightarrow> bool" where
  "is_leap y = (y mod 4 = 0 \<and> (y mod 100 \<noteq> 0 \<or> y mod 400 = 0))"

definition days_in_year :: "int \<Rightarrow> nat" where
  "days_in_year y = (if is_leap y then 366 else 365)"

definition days_in_month :: "int \<Rightarrow> int \<Rightarrow> nat" where
  "days_in_month y m =
     (if m = 2 then (if is_leap y then 29 else 28)
      else if m = 4 \<or> m = 6 \<or> m = 9 \<or> m = 11 then 30 else 31)"

function year_from :: "int \<Rightarrow> nat \<Rightarrow> int \<times> nat" where
  "year_from y d =
     (if d < days_in_year y then (y, d) else year_from (y + 1) (d - days_in_year y))"
  by pat_completeness auto
termination
  by (relation "measure snd") (auto simp: days_in_year_def)

declare year_from.simps [simp del]

function month_from :: "int \<Rightarrow> int \<Rightarrow> nat \<Rightarrow> int \<times> nat" where
  "month_from y m d =
     (if d < days_in_month y m then (m, d) else month_from y (m + 1) (d - days_in_month y m))"
  by pat_completeness auto
termination
  by (relation "measure (\<lambda>(y, m, d). d)") (auto simp: days_in_month_def)

declare month_from.simps [simp del]

text \<open>\<open>gmtime t\<close> for \<open>t\<close> seconds after 0001-01-01T00:00:00.\<close>

definition gmtime :: "nat \<Rightarrow> datetime" where
  "gmtime t =
     (let days = t div 86400; secs = t mod 86400;
          (y, doy) = year_from (1 + 400 * int (days div 146097)) (days mod 146097);
          (m, dom) = month_from y 1 doy
      in \<lparr> year = y, month = m, day = int dom + 1,
           hour = int (secs div 3600), minute = int (secs mod 3600 div 60),
           second = int (secs mod 60), microsecond = 0 \<rparr>)"

text \<open>
  \<^verbatim>\<open>utcfromtimestamp(t)\<close> for an integer \<open>t\<close>: the epoch 1970-01-01T00:00:00 is
  62135596800 seconds after 0001-01-01T00:00:00, and a year outside 1..9999 is a
  \<^verbatim>\<open>ValueError\<close>.
\<close>

definition utcfromtimestamp :: "int \<Rightarrow> error + datetime" where
  "utcfromtimestamp t =
     (if t < - 62135596800 \<or> 253402300799 < t then Inl ValueError
      else Inr (gmtime (nat (t + 62135596800))))"

subsection \<open>\<^verbatim>\<open>parse_user_data\<close>\<close>

text \<open>
  The returned dictionary has the four keys \<^verbatim>\<open>ts1\<close>, \<^verbatim>\<open>ts2\<close>, \<^verbatim>\<open>id\<close> and
  \<^verbatim>\<open>name\<close>. The identifier is ASCII by construction and kept as a \<^typ>\<open>string\<close>; the
  name is a list of code points.
\<close>

record user_data =
  ts1 :: datetime
  ts2 :: datetime
  id' :: string
  name :: "nat list"

text \<open>
  Line by line: the length check (lines 62-63); \<^verbatim>\<open>version = struct.unpack_from('<H', buf, 0x3)\<close>,
  which binds the whole tuple, and its comparison with the int \<open>0\<close> (lines 65-67); the three
  unsigned ints at \<open>0x11\<close>, of which the middle one is dropped (line 69); the six bytes at
  \<open>0x1D\<close> (line 70); the name, from \<open>0x23\<close> to the index \<^verbatim>\<open>buf.find(b'\x00', 0x23)\<close>
  (line 71); the two conversions of lines 75-76.
\<close>

definition parse_user_data :: "byte list \<Rightarrow> error + user_data" where
  "parse_user_data buf =
     (if length buf \<noteq> 0x80 then Inl ValueError
      else
        bind_err (unpack_from [Fmt_H] buf 0x3) (\<lambda>version.
        if py_eq (PyTuple version) (PyInt 0) then Inl NotImplementedError
        else
          bind_err (unpack_from [Fmt_I, Fmt_I, Fmt_I] buf 0x11) (\<lambda>t.
          bind_err (unpack3 t) (\<lambda>(t1, unused, t2).
          bind_err (unpack_from (replicate 6 Fmt_B) buf 0x1D) (\<lambda>ids.
          bind_err (format_id ids) (\<lambda>ident.
          bind_err (decode_utf8 (bytes_slice buf 0x23 (bytes_find buf [0] 0x23))) (\<lambda>nm.
          bind_err (utcfromtimestamp t1) (\<lambda>d1.
          bind_err (utcfromtimestamp t2) (\<lambda>d2.
            Inr \<lparr> ts1 = d1, ts2 = d2, id' = ident, name = nm \<rparr>)))))))))"

subsection \<open>\<^verbatim>\<open>get_userdata\<close>\<close>


section \<open>Notions of the specification\<close>

text \<open>
  What the statements below are phrased in. A run of four zero bytes starts at index
  \<open>k\<close>; more generally \<open>sub\<close> occurs in \<open>ys\<close> at index \<open>k\<close>.
\<close>

definition zero_run_at :: "byte list \<Rightarrow> nat \<Rightarrow> bool" where
  "zero_run_at buf k = (take 4 (drop k buf) = [0, 0, 0, 0])"

definition occurs_at :: "byte list \<Rightarrow> byte list \<Rightarrow> nat \<Rightarrow> bool" where
  "occurs_at sub ys k = (k \<le> length ys \<and> take (length sub) (drop k ys) = sub)"

text \<open>
  The unsigned integer a byte string denotes, by position: little-endian (byte \<open>k\<close>
  weighs \<open>256 ^ k\<close>) and big-endian (the last byte weighs 1).
\<close>

definition le_value :: "byte list \<Rightarrow> int" where
  "le_value bs = (\<Sum>k<length bs. uint (bs ! k) * 256 ^ k)"

definition be_value :: "byte list \<Rightarrow> int" where
  "be_value bs = (\<Sum>k<length bs. uint (bs ! k) * 256 ^ (length bs - 1 - k))"

text \<open>
  The unsigned 16-bit and 32-bit little-endian fields at a byte offset, two uppercase
  hexadecimal digits for a byte, and the instant 1970-01-01T00:00:00.
\<close>

definition u16_le_at :: "byte list \<Rightarrow> nat \<Rightarrow> int" where
  "u16_le_at buf off = uint (buf ! off) + 256 * uint (buf ! (off + 1))"

definition u32_le_at :: "byte list \<Rightarrow> nat \<Rightarrow> int" where
  "u32_le_at buf off =
     uint (buf ! off) + 256 * uint (buf ! (off + 1)) + 65536 * uint (buf ! (off + 2))
     + 16777216 * uint (buf ! (off + 3))"

definition hex_pair :: "byte \<Rightarrow> string" where
  "hex_pair b = [hexdigit (unat b div 16), hexdigit (unat b mod 16)]"

definition epoch :: datetime where
  "epoch = \<lparr> year = 1970, month = 1, day = 1, hour = 0, minute = 0, second = 0,
             microsecond = 0 \<rparr>"

text \<open>
  The seconds from the epoch to a civil date and time of the proleptic Gregorian
  calendar: the days before the year, the days before the month within the year (from
  the table of month lengths, February having 29 days in a leap year), the days before
  the day within the month, and the time of day.
\<close>

definition days_before_year :: "int \<Rightarrow> int" where
  "days_before_year y = 365 * (y - 1) + (y - 1) div 4 - (y - 1) div 100 + (y - 1) div 400"

definition gregorian_leap :: "int \<Rightarrow> bool" where
  "gregorian_leap y = (y mod 4 = 0 \<and> y mod 100 \<noteq> 0 \<or> y mod 400 = 0)"

definition month_lengths :: "int \<Rightarrow> nat list" where
  "month_lengths y =
     [31, if gregorian_leap y then 29 else 28, 31, 30, 31, 30, 31, 31, 30, 31, 30, 31]"

definition days_before_month :: "int \<Rightarrow> int \<Rightarrow> nat" where
  "days_before_month y m = sum_list (take (nat (m - 1)) (month_lengths y))"

definition timegm :: "datetime \<Rightarrow> int" where
  "timegm dt =
     (days_before_year (year dt) + int (days_before_month (year dt) (month dt)) + (day dt - 1))
       * 86400
     + hour dt * 3600 + minute dt * 60 + second dt - 62135596800"

text \<open>
  A date and time of the calendar: a month from 1 to 12, a day from 1 to the length of
  that month in that year, a time of day below 24:00:00, and no microseconds.
\<close>

definition valid_datetime :: "datetime \<Rightarrow> bool" where
  "valid_datetime dt =
     (1 \<le> month dt \<and> month dt \<le> 12
      \<and> 1 \<le> day dt \<and> day dt \<le> int (month_lengths (year dt) ! nat (month dt - 1))
      \<and> 0 \<le> hour dt \<and> hour dt < 24 \<and> 0 \<le> minute dt \<and> minute dt < 60
      \<and> 0 \<le> second dt \<and> second dt < 60 \<and> microsecond dt = 0)"

text \<open>
  The record decoded from a 128-byte buffer, up to its name: the timestamps at \<open>0x11\<close>
  and \<open>0x19\<close> as seconds after the epoch, and the six bytes at \<open>0x1D\<close> as
  \<^verbatim>\<open>XX-XXXX-XXXX-XX\<close>.
\<close>

definition decoded :: "byte list \<Rightarrow> nat list \<Rightarrow> user_data" where
  "decoded buf nm =
     \<lparr> ts1 = gmtime (nat (u32_le_at buf 0x11 + 62135596800)),
       ts2 = gmtime (nat (u32_le_at buf 0x19 + 62135596800)),
       id' = hex_pair (buf ! 0x1D) @ ''-'' @ hex_pair (buf ! 0x1E) @ hex_pair (buf ! 0x1F)
             @ ''-'' @ hex_pair (buf ! 0x20) @ hex_pair (buf ! 0x21) @ ''-''
             @ hex_pair (buf ! 0x22),
       name = nm \<rparr>"


definition stamped :: "byte list" where
  "stamped = replicate 17 1 @ [0x80, 0x51, 0x01, 0x00] @ [0xFF, 0xFF, 0xFF, 0xFF]
             @ [0, 0, 0, 0] @ replicate 99 0"

section \<open>The encryption heuristic\<close>

lemma occurs_at_Cons:
  "occurs_at sub (x # xs) (Suc k) = occurs_at sub xs k"
  by (simp add: occurs_at_def)

lemma find_scan_first:
  "occurs_at sub ys k \<Longrightarrow> (\<forall>j<k. \<not> occurs_at sub ys j) \<Longrightarrow> find_scan sub ys i = int (i + k)"
proof (induction ys arbitrary: i k)
  case Nil
  then show ?case by (auto simp: occurs_at_def)
next
  case (Cons x xs)
  show ?case
  proof (cases k)
    case 0
    with Cons.prems show ?thesis by (simp add: occurs_at_def)
  next
    case (Suc k')
    from Cons.prems Suc have no0: "\<not> occurs_at sub (x # xs) 0" by blast
    from Cons.prems Suc have a: "occurs_at sub xs k'" by (simp add: occurs_at_Cons)
    have b: "\<forall>j<k'. \<not> occurs_at sub xs j"
    proof (intro allI impI)
      fix j assume "j < k'"
      then have "Suc j < k" using Suc by simp
      with Cons.prems have "\<not> occurs_at sub (x # xs) (Suc j)" by blast
      then show "\<not> occurs_at sub xs j" by (simp add: occurs_at_Cons)
    qed
    from Cons.IH [OF a b, of "Suc i"] no0 Suc show ?thesis
      by (simp add: occurs_at_def)
  qed
qed

lemma find_scan_none:
  "(\<forall>j. \<not> occurs_at sub ys j) \<Longrightarrow> find_scan sub ys i = -1"
proof (induction ys arbitrary: i)
  case Nil
  then show ?case by (auto simp: occurs_at_def)
next
  case (Cons x xs)
  from Cons.prems have no0: "\<not> occurs_at sub (x # xs) 0" by blast
  have "\<forall>j. \<not> occurs_at sub xs j"
  proof
    fix j from Cons.prems have "\<not> occurs_at sub (x # xs) (Suc j)" by blast
    then show "\<not> occurs_at sub xs j" by (simp add: occurs_at_Cons)
  qed
  from Cons.IH [OF this, of "Suc i"] no0 show ?case by (simp add: occurs_at_def)
qed

lemma zero_run_occurs: "zero_run_at buf k = occurs_at (replicate 4 0) buf k"
proof (cases "k \<le> length buf")
  case True
  then show ?thesis by (simp add: zero_run_at_def occurs_at_def numeral_eq_Suc)
next
  case False
  then show ?thesis by (simp add: zero_run_at_def occurs_at_def)
qed

text \<open>A run of four zero bytes at index \<open>k\<close>, byte by byte.\<close>

lemma zero_run_at_nth:
  "zero_run_at buf k \<longleftrightarrow> k + 4 \<le> length buf \<and> (\<forall>i<4. buf ! (k + i) = 0)"
proof -
  have r: "[0, 0, 0, 0] = replicate 4 (0 :: byte)" by (simp add: numeral_eq_Suc)
  have "take 4 (drop k buf) = replicate 4 0
        \<longleftrightarrow> length (take 4 (drop k buf)) = 4
            \<and> (\<forall>i<4. take 4 (drop k buf) ! i = replicate 4 (0 :: byte) ! i)"
    by (auto simp: list_eq_iff_nth_eq)
  also have "\<dots> \<longleftrightarrow> k + 4 \<le> length buf \<and> (\<forall>i<4. buf ! (k + i) = 0)"
    by auto
  finally show ?thesis by (simp only: zero_run_at_def r)
qed

lemma find_zero_run_first:
  "zero_run_at buf k \<Longrightarrow> (\<forall>j<k. \<not> zero_run_at buf j) \<Longrightarrow> bytes_find buf (replicate 4 0) 0 = int k"
  using find_scan_first [of "replicate 4 0" buf k 0] by (simp add: zero_run_occurs bytes_find_def)

lemma find_zero_run_none:
  "(\<forall>j. \<not> zero_run_at buf j) \<Longrightarrow> bytes_find buf (replicate 4 0) 0 = -1"
  using find_scan_none [of "replicate 4 0" buf 0] by (simp add: zero_run_occurs bytes_find_def)

text \<open>
  Claim C4. \<^verbatim>\<open>is_encrypted(buf)\<close> is true exactly when \<open>buf\<close> holds a run of four
  zero bytes and the earliest one starts at an index of at least \<open>0x80\<close>; a buffer with
  no such run at all is classified as plaintext. The function is total: it returns a
  truth value for every buffer and has no exception to raise.
\<close>

theorem is_encrypted_iff:
  "(is_encrypted buf \<longleftrightarrow> (\<exists>k. 0x80 \<le> k \<and> zero_run_at buf k \<and> (\<forall>j<k. \<not> zero_run_at buf j)))
   \<and> ((\<forall>k. \<not> zero_run_at buf k) \<longrightarrow> \<not> is_encrypted buf)"
proof (cases "\<exists>k. zero_run_at buf k")
  case True
  then obtain k0 where k0: "zero_run_at buf k0" "\<forall>j<k0. \<not> zero_run_at buf j"
    by (metis exists_least_iff)
  have f: "bytes_find buf (replicate 4 0) 0 = int k0"
    by (rule find_zero_run_first [OF k0])
  have enc: "is_encrypted buf \<longleftrightarrow> 128 \<le> k0"
    unfolding is_encrypted_def f by simp
  have u: "k = k0" if "zero_run_at buf k" "\<forall>j<k. \<not> zero_run_at buf j" for k
  proof (rule ccontr)
    assume "k \<noteq> k0"
    then consider "k < k0" | "k0 < k" by linarith
    then show False
    proof cases
      case 1 with k0(2) that(1) show False by blast
    next
      case 2 with that(2) k0(1) show False by blast
    qed
  qed
  have rhs: "(\<exists>k. 128 \<le> k \<and> zero_run_at buf k \<and> (\<forall>j<k. \<not> zero_run_at buf j)) \<longleftrightarrow> 128 \<le> k0"
  proof
    assume "\<exists>k. 128 \<le> k \<and> zero_run_at buf k \<and> (\<forall>j<k. \<not> zero_run_at buf j)"
    then obtain k where k: "128 \<le> k" "zero_run_at buf k" "\<forall>j<k. \<not> zero_run_at buf j"
      by blast
    from u [OF k(2) k(3)] k(1) show "128 \<le> k0" by simp
  next
    assume "128 \<le> k0"
    with k0 show "\<exists>k. 128 \<le> k \<and> zero_run_at buf k \<and> (\<forall>j<k. \<not> zero_run_at buf j)"
      by blast
  qed
  from True have third: "(\<forall>k. \<not> zero_run_at buf k) \<longrightarrow> \<not> is_encrypted buf" by blast
  from enc rhs third show ?thesis by simp
next
  case False
  then have "bytes_find buf (replicate 4 0) 0 = -1"
    by (simp add: find_zero_run_none)
  then have ne: "\<not> is_encrypted buf" by (simp add: is_encrypted_def)
  from False have "\<not> (\<exists>k. 128 \<le> k \<and> zero_run_at buf k \<and> (\<forall>j<k. \<not> zero_run_at buf j))"
    by blast
  with ne show ?thesis by simp
qed

theorem is_encrypted_iff_witness:
  "is_encrypted (replicate 128 1 @ replicate 4 0)
   \<and> zero_run_at (replicate 128 1 @ replicate 4 0) 128
   \<and> list_all (\<lambda>j. \<not> zero_run_at (replicate 128 1 @ replicate 4 0) j) [0..<128]"
proof -
  let ?B = "replicate 128 1 @ replicate 4 0 :: byte list"
  have r: "zero_run_at ?B 128" by code_simp
  have e: "list_all (\<lambda>j. \<not> zero_run_at ?B j) [0..<128]" by code_simp
  then have "\<forall>j<128. \<not> zero_run_at ?B j" by (simp add: list_all_iff)
  with r have "\<exists>k. 0x80 \<le> k \<and> zero_run_at ?B k \<and> (\<forall>j<k. \<not> zero_run_at ?B j)"
    by (intro exI [of _ 128]) simp
  with is_encrypted_iff [of ?B] have "is_encrypted ?B" by blast
  with r e show ?thesis by (intro conjI)
qed

text \<open>The boundary: a first run at \<open>0x7F\<close>, at \<open>0\<close>, or none at all is plaintext.\<close>

lemma is_encrypted_boundary:
  "\<not> is_encrypted (replicate 127 1 @ replicate 4 0)"
  "\<not> is_encrypted (replicate 4 0 @ replicate 200 1)"
  "\<not> is_encrypted (replicate 200 1)"
  "\<not> is_encrypted []"
  by code_simp+

section \<open>Decryption\<close>

lemma clamp_index_nonneg: "0 \<le> i \<Longrightarrow> clamp_index n i = min (nat i) n"
  by (simp add: clamp_index_def)

lemma bytes_slice_prefix: "bytes_slice buf 0 0x80 = take 128 buf"
  by (cases "128 \<le> length buf") (simp_all add: bytes_slice_def clamp_index_def min_def)

lemma le_value_Nil: "le_value [] = 0"
  by (simp add: le_value_def)

lemma le_value_Cons: "le_value (b # bs) = uint b + 256 * le_value bs"
proof -
  have "le_value (b # bs) = uint b + (\<Sum>k<length bs. uint (bs ! k) * 256 ^ Suc k)"
    unfolding le_value_def by (simp add: sum.lessThan_Suc_shift del: sum.lessThan_Suc)
  also have "(\<Sum>k<length bs. uint (bs ! k) * 256 ^ Suc k) = 256 * le_value bs"
    by (simp add: le_value_def sum_distrib_left mult_ac)
  finally show ?thesis .
qed

lemma from_bytes_little_value: "from_bytes_little bs = le_value bs"
  by (induction bs) (simp_all add: le_value_Nil le_value_Cons)

lemma from_bytes_little_nonneg: "0 \<le> from_bytes_little bs"
  by (induction bs) simp_all

lemma from_bytes_little_bound: "from_bytes_little bs < 256 ^ length bs"
proof (induction bs)
  case Nil
  show ?case by simp
next
  case (Cons b bs)
  have "uint b < 256" using uint_bounded [of b] by simp
  with Cons show ?case by simp
qed

lemma from_bytes_little_zeros: "from_bytes_little (bs @ replicate n 0) = from_bytes_little bs"
proof (induction bs)
  case Nil
  show ?case by (induction n) simp_all
next
  case (Cons b bs)
  then show ?case by simp
qed

lemma length_big_digits: "length (big_digits k n) = k"
  by (induction k arbitrary: n) simp_all

lemma be_value_Nil: "be_value [] = 0"
  by (simp add: be_value_def)

lemma be_value_snoc: "be_value (bs @ [b]) = 256 * be_value bs + uint b"
proof -
  have "(\<Sum>k<length bs. uint ((bs @ [b]) ! k) * 256 ^ (length bs - k))
        = (\<Sum>k<length bs. 256 * (uint (bs ! k) * 256 ^ (length bs - 1 - k)))"
  proof (rule sum.cong)
    fix k assume "k \<in> {..<length bs}"
    then have k: "k < length bs" by simp
    then have "length bs - k = Suc (length bs - 1 - k)" by simp
    with k show "uint ((bs @ [b]) ! k) * 256 ^ (length bs - k)
                 = 256 * (uint (bs ! k) * 256 ^ (length bs - 1 - k))"
      by (simp add: nth_append)
  qed simp
  then show ?thesis
    by (simp add: be_value_def sum_distrib_left)
qed

lemma uint_byte_of_int: "uint (word_of_int x :: byte) = x mod 256"
  by (simp add: uint_word_of_int)

lemma be_value_big_digits: "be_value (big_digits k n) = n mod 256 ^ k"
proof (induction k arbitrary: n)
  case 0
  show ?case by (simp add: be_value_Nil)
next
  case (Suc k)
  have "n mod (256 * 256 ^ k) = 256 * (n div 256 mod 256 ^ k) + n mod 256"
    by (rule zmod_zmult2_eq) simp
  with Suc show ?case
    by (simp add: be_value_snoc uint_byte_of_int)
qed

lemma to_bytes_big_ok:
  "0 \<le> n \<Longrightarrow> n < 256 ^ len \<Longrightarrow>
   \<exists>out. to_bytes_big n len = Inr out \<and> length out = len \<and> be_value out = n"
  by (simp add: to_bytes_big_def length_big_digits be_value_big_digits)

lemma pubkey_pos: "0 < HEXRAYS_PUBKEY"
  by (simp add: HEXRAYS_PUBKEY_def)

lemma pubkey_1024: "HEXRAYS_PUBKEY < 2 ^ 1024"
  by (simp add: HEXRAYS_PUBKEY_def)

lemma pubkey_1024_low: "2 ^ 1023 \<le> HEXRAYS_PUBKEY"
  by (simp add: HEXRAYS_PUBKEY_def)

lemma pubkey_fits: "HEXRAYS_PUBKEY < 256 ^ 128"
proof -
  have "(256::int) ^ 128 = 2 ^ 1024" by simp
  with pubkey_1024 show ?thesis by simp
qed

lemma pow_mod_range: "0 \<le> pow_mod b e HEXRAYS_PUBKEY \<and> pow_mod b e HEXRAYS_PUBKEY < HEXRAYS_PUBKEY"
  using pubkey_pos by (simp add: pow_mod_def)

lemma be_value_inj:
  "length xs = length ys \<Longrightarrow> be_value xs = be_value ys \<Longrightarrow> xs = ys"
proof (induction xs arbitrary: ys rule: rev_induct)
  case Nil
  then show ?case by simp
next
  case (snoc x xs)
  from snoc.prems(1) obtain y ys' where ys: "ys = ys' @ [y]"
    by (cases ys rule: rev_cases) simp_all
  from snoc.prems(2) ys
  have eq: "256 * be_value xs + uint x = 256 * be_value ys' + uint y"
    by (simp add: be_value_snoc)
  have bx: "0 \<le> uint x" "uint x < 256" using uint_bounded [of x] by simp_all
  have by': "0 \<le> uint y" "uint y < 256" using uint_bounded [of y] by simp_all
  from eq have "(256 * be_value xs + uint x) mod 256 = (256 * be_value ys' + uint y) mod 256"
    by simp
  then have "uint x mod 256 = uint y mod 256" by simp
  with bx by' have "uint x = uint y" by simp
  then have d: "x = y" by (simp add: word_uint_eq_iff)
  with eq have "be_value xs = be_value ys'" by simp
  with snoc.IH [of ys'] snoc.prems(1) ys have "xs = ys'" by simp
  with d ys show ?case by simp
qed

lemma decrypt_result:
  "\<exists>out. decrypt buf = Inr out \<and> length out = 128
     \<and> be_value out = le_value (take 128 buf) ^ 19 mod HEXRAYS_PUBKEY"
proof -
  let ?dec = "pow_mod (from_bytes_little (take 128 buf)) 19 HEXRAYS_PUBKEY"
  have "0 \<le> ?dec" "?dec < 256 ^ 128"
    using pow_mod_range [of "from_bytes_little (take 128 buf)" 19] pubkey_fits by simp_all
  from to_bytes_big_ok [OF this]
  obtain out where "to_bytes_big ?dec 128 = Inr out" "length out = 128" "be_value out = ?dec"
    by blast
  then show ?thesis
    by (simp add: decrypt_def bytes_slice_prefix pow_mod_def from_bytes_little_value)
qed

text \<open>
  Claim C3. For a buffer of at least 128 bytes, \<^verbatim>\<open>decrypt\<close> returns 128 bytes whose
  big-endian value is \<open>i ^ 0x13 mod n\<close>, where \<open>i\<close> is the little-endian value of the
  first 128 bytes and \<open>n\<close> the modulus \<^verbatim>\<open>HEXRAYS_PUBKEY\<close>. By \<open>be_value_inj\<close> there
  is one such byte string only.
\<close>

theorem decrypt_spec:
  "128 \<le> length buf \<Longrightarrow>
   \<exists>out. decrypt buf = Inr out \<and> length out = 128
     \<and> be_value out = le_value (take 128 buf) ^ 0x13 mod HEXRAYS_PUBKEY"
  using decrypt_result [of buf] by simp

theorem decrypt_spec_witness:
  "128 \<le> length (2 # replicate 127 (0 :: byte))
   \<and> decrypt (2 # replicate 127 0) = Inr (replicate 125 0 @ [8, 0, 0])
   \<and> be_value (replicate 125 0 @ [8, 0, 0]) = 2 ^ 19"
proof -
  let ?B = "2 # replicate 127 (0 :: byte)"
  have len: "128 \<le> length ?B" by simp
  have dec: "decrypt ?B = Inr (replicate 125 0 @ [8, 0, 0])" by code_simp
  have i: "le_value (take 128 ?B) = 2"
    unfolding from_bytes_little_value [symmetric] by code_simp
  have "(2 :: int) ^ 19 mod HEXRAYS_PUBKEY = 2 ^ 19"
    by (simp add: HEXRAYS_PUBKEY_def)
  with decrypt_spec [OF len] dec i
  have "be_value (replicate 125 0 @ [8, 0, 0]) = 2 ^ 19" by simp
  with len dec show ?thesis by (intro conjI)
qed

text \<open>
  Claim C8. For a buffer of at least 128 bytes, the bytes from offset 128 on have no
  influence: \<^verbatim>\<open>decrypt(buf) == decrypt(buf[:128])\<close>.
\<close>

theorem decrypt_prefix:
  "128 \<le> length buf \<Longrightarrow> decrypt buf = decrypt (take 128 buf)"
  by (simp add: decrypt_def bytes_slice_prefix)

theorem decrypt_prefix_witness:
  "128 \<le> length (replicate 128 (7 :: byte) @ [1, 2, 3])
   \<and> decrypt (replicate 128 7 @ [1, 2, 3]) = decrypt (take 128 (replicate 128 7 @ [1, 2, 3]))
   \<and> take 128 (replicate 128 (7 :: byte) @ [1, 2, 3]) = replicate 128 7"
proof -
  have len: "128 \<le> length (replicate 128 (7 :: byte) @ [1, 2, 3])" by simp
  from decrypt_prefix [OF len] len show ?thesis by simp
qed

text \<open>
  Claim C9. \<^verbatim>\<open>decrypt\<close> is total: for a buffer of any length, shorter than 128 bytes
  included, it returns exactly 128 bytes. A short buffer is read as its zero-extension to
  128 bytes, and the serialization cannot overflow, because the power is reduced modulo
  \<open>n\<close> and \<open>n\<close> is a 1024-bit number.
\<close>

theorem decrypt_total:
  "\<exists>out. decrypt buf = Inr out \<and> length out = 128
     \<and> be_value out
         = le_value (take 128 buf @ replicate (128 - length buf) 0) ^ 0x13 mod HEXRAYS_PUBKEY
     \<and> 0 \<le> be_value out \<and> be_value out < HEXRAYS_PUBKEY
     \<and> 2 ^ 1023 \<le> HEXRAYS_PUBKEY \<and> HEXRAYS_PUBKEY < 2 ^ 1024"
proof -
  have z: "le_value (take 128 buf @ replicate (128 - length buf) 0) = le_value (take 128 buf)"
    by (simp add: from_bytes_little_value [symmetric] from_bytes_little_zeros)
  from decrypt_result [of buf] obtain out where
    out: "decrypt buf = Inr out" "length out = 128"
         "be_value out = le_value (take 128 buf) ^ 19 mod HEXRAYS_PUBKEY"
    by blast
  have "0 \<le> be_value out" "be_value out < HEXRAYS_PUBKEY"
    using out(3) pubkey_pos by simp_all
  with out z pubkey_1024 pubkey_1024_low show ?thesis by simp
qed

theorem decrypt_total_witness:
  "decrypt [] = Inr (replicate 128 0) \<and> decrypt [2] = Inr (replicate 125 0 @ [8, 0, 0])"
proof -
  from decrypt_total [of "[]"] obtain out where
    out: "decrypt [] = Inr out" "length out = 128" by blast
  have a: "decrypt [] = Inr (replicate 128 0)" by code_simp
  have b: "decrypt [2] = Inr (replicate 125 0 @ [8, 0, 0])" by code_simp
  from out a b show ?thesis by simp
qed

section \<open>Decoding the record\<close>

subsection \<open>Fields at fixed offsets\<close>

lemma take_drop_nth:
  "n + k \<le> length xs \<Longrightarrow> take k (drop n xs) = map (\<lambda>i. xs ! (n + i)) [0..<k]"
  by (rule nth_equalityI) simp_all

lemma take1_drop: "n < length xs \<Longrightarrow> take (Suc 0) (drop n xs) = [xs ! n]"
  using take_drop_nth [of n 1 xs] by simp

lemma take2_drop: "n + 2 \<le> length xs \<Longrightarrow> take 2 (drop n xs) = [xs ! n, xs ! (n + 1)]"
  using take_drop_nth [of n 2 xs] by (simp add: numeral_2_eq_2)

lemma take4_drop:
  "n + 4 \<le> length xs \<Longrightarrow>
   take 4 (drop n xs) = [xs ! n, xs ! (n + 1), xs ! (n + 2), xs ! (n + 3)]"
proof -
  assume "n + 4 \<le> length xs"
  then have "take 4 (drop n xs) = map (\<lambda>i. xs ! (n + i)) [0..<4]"
    by (rule take_drop_nth)
  also have "[0..<4] = [0, 1, 2, 3::nat]"
    by (simp add: upt_rec)
  finally show ?thesis by simp
qed

lemma unpack_version:
  "length buf = 128 \<Longrightarrow> unpack_from [Fmt_H] buf 0x3 = Inr [u16_le_at buf 3]"
  by (simp add: unpack_from_def take2_drop u16_le_at_def)

lemma unpack_timestamps:
  "length buf = 128 \<Longrightarrow>
   unpack_from [Fmt_I, Fmt_I, Fmt_I] buf 0x11
   = Inr [u32_le_at buf 0x11, u32_le_at buf 0x15, u32_le_at buf 0x19]"
  by (simp add: unpack_from_def take4_drop u32_le_at_def)

lemma replicate_6: "replicate 6 x = [x, x, x, x, x, x]"
  by (simp add: numeral_eq_Suc)

lemma unpack_id_bytes:
  "length buf = 128 \<Longrightarrow>
   unpack_from (replicate 6 Fmt_B) buf 0x1D
   = Inr [uint (buf ! 0x1D), uint (buf ! 0x1E), uint (buf ! 0x1F),
          uint (buf ! 0x20), uint (buf ! 0x21), uint (buf ! 0x22)]"
  by (simp add: unpack_from_def replicate_6 take1_drop)

lemma hex_upper_digit: "n < 16 \<Longrightarrow> hex_upper n = [hexdigit n]"
  by (simp add: hex_upper.simps)

lemma hex_upper_byte:
  "16 \<le> n \<Longrightarrow> n < 256 \<Longrightarrow> hex_upper n = [hexdigit (n div 16), hexdigit (n mod 16)]"
proof -
  assume a: "16 \<le> n" "n < 256"
  then have "n div 16 < 16" by simp
  then have "hex_upper (n div 16) = [hexdigit (n div 16)]" by (rule hex_upper_digit)
  with a show ?thesis by (subst hex_upper.simps) simp
qed

lemma fmt_02X_byte: "fmt_02X (uint b) = hex_pair b"
proof -
  have "\<bar>uint b\<bar> = uint b" by (rule abs_of_nonneg) (rule uint_ge_0)
  then have n: "nat \<bar>uint b\<bar> = unat b" by (simp only: unat_eq_nat_uint)
  have "unat b < 2 ^ LENGTH(8)" by (rule unsigned_less)
  then have lt: "unat b < 256" by simp
  show ?thesis
  proof (cases "unat b < 16")
    case True
    then show ?thesis
      by (simp add: fmt_02X_def n hex_upper_digit hex_pair_def hexdigit_def)
  next
    case False
    with lt show ?thesis
      by (simp add: fmt_02X_def n hex_upper_byte hex_pair_def)
  qed
qed

lemma u32_le_at_range: "0 \<le> u32_le_at buf off \<and> u32_le_at buf off < 2 ^ 32"
proof -
  have b: "0 \<le> uint x \<and> uint x \<le> 255" for x :: byte
    using uint_bounded [of x] by simp
  from b [of "buf ! off"] b [of "buf ! (off + 1)"] b [of "buf ! (off + 2)"]
    b [of "buf ! (off + 3)"]
  show ?thesis by (simp add: u32_le_at_def)
qed

lemma utcfromtimestamp_u32:
  "utcfromtimestamp (u32_le_at buf off) = Inr (gmtime (nat (u32_le_at buf off + 62135596800)))"
  using u32_le_at_range [of buf off] by (simp add: utcfromtimestamp_def)

subsection \<open>The calendar\<close>

lemmas cal_simps = gmtime_def year_from.simps month_from.simps
  days_in_year_def days_in_month_def is_leap_def Let_def

lemma gmtime_epoch: "gmtime 62135596800 = epoch"
  by (simp add: epoch_def cal_simps)

lemma gmtime_next_day: "gmtime 62135683200 = epoch \<lparr> day := 2 \<rparr>"
  by (simp add: epoch_def cal_simps)

lemma utcfromtimestamp_0: "utcfromtimestamp 0 = Inr epoch"
  by (simp add: utcfromtimestamp_def gmtime_epoch)

lemma utcfromtimestamp_examples:
  "utcfromtimestamp 951782400
   = Inr \<lparr> year = 2000, month = 2, day = 29, hour = 0, minute = 0, second = 0,
           microsecond = 0 \<rparr>"
  "utcfromtimestamp 1094795585
   = Inr \<lparr> year = 2004, month = 9, day = 10, hour = 5, minute = 53, second = 5,
           microsecond = 0 \<rparr>"
  "utcfromtimestamp 4294967295
   = Inr \<lparr> year = 2106, month = 2, day = 7, hour = 6, minute = 28, second = 15,
           microsecond = 0 \<rparr>"
  by (simp_all add: utcfromtimestamp_def cal_simps)

text \<open>
  The conversion is exact: the date and time that \<^verbatim>\<open>utcfromtimestamp\<close> returns for
  \<open>t\<close> is a valid one, and it lies \<open>t\<close> seconds after the epoch. The calendar of
  the statement (\<open>days_before_year\<close>, the table \<open>month_lengths\<close>) is written
  independently of the functions that compute the date.
\<close>

lemma div_pred:
  fixes y n :: int
  assumes n: "0 < n"
  shows "y div n = (y - 1) div n + (if y mod n = 0 then 1 else 0)"
proof (cases "y mod n = 0")
  case True
  have "n * (y div n) + y mod n = y" by (rule mult_div_mod_eq)
  with True have "y - 1 = n * (y div n - 1) + (n - 1)" by (simp add: algebra_simps)
  then have "(y - 1) div n = y div n - 1"
    by (rule int_div_pos_eq) (use n in simp_all)
  with True show ?thesis by simp
next
  case False
  have "0 \<le> y mod n" "y mod n < n" using n by simp_all
  with False have r: "0 \<le> y mod n - 1" "y mod n - 1 < n" by simp_all
  have "n * (y div n) + y mod n = y" by (rule mult_div_mod_eq)
  then have "y - 1 = n * (y div n) + (y mod n - 1)" by simp
  then have "(y - 1) div n = y div n"
    using r by (rule int_div_pos_eq)
  with False show ?thesis by simp
qed

lemma mod_400_100: "(y :: int) mod 400 = 0 \<Longrightarrow> y mod 100 = 0"
proof -
  assume "y mod 400 = 0"
  moreover have "y mod 400 mod 100 = y mod 100" by (rule mod_mod_cancel) simp
  ultimately show ?thesis by simp
qed

lemma mod_100_4: "(y :: int) mod 100 = 0 \<Longrightarrow> y mod 4 = 0"
proof -
  assume "y mod 100 = 0"
  moreover have "y mod 100 mod 4 = y mod 4" by (rule mod_mod_cancel) simp
  ultimately show ?thesis by simp
qed

lemma days_before_year_Suc:
  "days_before_year (y + 1) = days_before_year y + int (days_in_year y)"
proof -
  have a: "y div 4 = (y - 1) div 4 + (if y mod 4 = 0 then 1 else 0)"
    by (rule div_pred) simp
  have b: "y div 100 = (y - 1) div 100 + (if y mod 100 = 0 then 1 else 0)"
    by (rule div_pred) simp
  have c: "y div 400 = (y - 1) div 400 + (if y mod 400 = 0 then 1 else 0)"
    by (rule div_pred) simp
  have "days_before_year (y + 1) = 365 * y + y div 4 - y div 100 + y div 400"
    by (simp add: days_before_year_def)
  also have "\<dots> = days_before_year y + (365
      + (if y mod 4 = 0 then 1 else 0) - (if y mod 100 = 0 then 1 else 0)
      + (if y mod 400 = 0 then 1 else 0))"
    unfolding days_before_year_def by (subst a, subst b, subst c) simp
  finally have s1: "days_before_year (y + 1) = days_before_year y + (365
      + (if y mod 4 = 0 then 1 else 0) - (if y mod 100 = 0 then 1 else 0)
      + (if y mod 400 = 0 then 1 else 0))" .
  have s2: "365 + (if y mod 4 = 0 then 1 else 0) - (if y mod 100 = 0 then 1 else 0)
      + (if y mod 400 = 0 then 1 else (0 :: int)) = int (days_in_year y)"
  proof -
    consider (c400) "y mod 400 = 0"
      | (c100) "y mod 400 \<noteq> 0" "y mod 100 = 0"
      | (c4) "y mod 100 \<noteq> 0" "y mod 4 = 0"
      | (c1) "y mod 4 \<noteq> 0"
      by blast
    then show ?thesis
    proof cases
      case c400
      then have "y mod 100 = 0" by (rule mod_400_100)
      moreover from this have "y mod 4 = 0" by (rule mod_100_4)
      ultimately show ?thesis using c400 by (simp add: days_in_year_def is_leap_def)
    next
      case c100
      from c100(2) have "y mod 4 = 0" by (rule mod_100_4)
      with c100 show ?thesis by (simp add: days_in_year_def is_leap_def)
    next
      case c4
      from c4(1) have "y mod 400 \<noteq> 0" using mod_400_100 [of y] by auto
      with c4 show ?thesis by (simp add: days_in_year_def is_leap_def)
    next
      case c1
      then have "y mod 100 \<noteq> 0" using mod_100_4 [of y] by auto
      moreover from this have "y mod 400 \<noteq> 0" using mod_400_100 [of y] by auto
      ultimately show ?thesis using c1 by (simp add: days_in_year_def is_leap_def)
    qed
  qed
  show ?thesis by (simp only: s1 s2)
qed

lemma days_before_year_cycle: "days_before_year (1 + 400 * k) = 146097 * k"
  by (simp add: days_before_year_def)

lemma year_from_inv:
  "year_from y d = (y', d') \<Longrightarrow>
   days_before_year y' + int d' = days_before_year y + int d \<and> d' < days_in_year y' \<and> y \<le> y'"
proof (induction y d rule: year_from.induct)
  case (1 y d)
  show ?case
  proof (cases "d < days_in_year y")
    case True
    with "1.prems" show ?thesis by (simp add: year_from.simps [of y d])
  next
    case False
    with "1.prems" have "year_from (y + 1) (d - days_in_year y) = (y', d')"
      by (simp add: year_from.simps [of y d])
    from "1.IH" [OF False this] False show ?thesis
      by (simp add: days_before_year_Suc)
  qed
qed

lemma leap_agree: "is_leap y = gregorian_leap y"
proof (cases "y mod 400 = 0")
  case True
  then have b: "y mod 100 = 0" by (rule mod_400_100)
  then have a: "y mod 4 = 0" by (rule mod_100_4)
  show ?thesis by (simp add: is_leap_def gregorian_leap_def True a b)
next
  case False
  then show ?thesis by (simp add: is_leap_def gregorian_leap_def)
qed

lemma length_month_lengths: "length (month_lengths y) = 12"
  by (simp add: month_lengths_def)

lemma days_in_month_table:
  "1 \<le> m \<Longrightarrow> m \<le> 12 \<Longrightarrow> days_in_month y m = month_lengths y ! nat (m - 1)"
proof -
  assume "1 \<le> m" "m \<le> 12"
  then have "m = 1 \<or> m = 2 \<or> m = 3 \<or> m = 4 \<or> m = 5 \<or> m = 6 \<or> m = 7
    \<or> m = 8 \<or> m = 9 \<or> m = 10 \<or> m = 11 \<or> m = 12"
    by presburger
  then show ?thesis
    by (elim disjE) (simp_all add: days_in_month_def month_lengths_def leap_agree)
qed

lemma days_before_month_1: "days_before_month y 1 = 0"
  by (simp add: days_before_month_def)

lemma days_before_month_Suc:
  "1 \<le> m \<Longrightarrow> m \<le> 12 \<Longrightarrow>
   days_before_month y (m + 1) = days_before_month y m + days_in_month y m"
proof -
  assume m: "1 \<le> m" "m \<le> 12"
  then have i: "nat (m - 1) < length (month_lengths y)"
    by (simp add: length_month_lengths)
  from m have "nat (m + 1 - 1) = Suc (nat (m - 1))" by simp
  then have "days_before_month y (m + 1)
      = sum_list (take (Suc (nat (m - 1))) (month_lengths y))"
    by (simp only: days_before_month_def)
  also have "\<dots> = sum_list (take (nat (m - 1)) (month_lengths y))
      + month_lengths y ! nat (m - 1)"
    by (simp only: take_Suc_conv_app_nth [OF i]) simp
  finally show ?thesis
    by (simp only: days_before_month_def days_in_month_table [OF m])
qed

lemma days_before_month_13: "days_before_month y 13 = days_in_year y"
  by (simp add: days_before_month_def month_lengths_def days_in_year_def leap_agree)

lemma sum_list_take_mono:
  fixes xs :: "nat list"
  shows "i \<le> j \<Longrightarrow> sum_list (take i xs) \<le> sum_list (take j xs)"
proof -
  assume "i \<le> j"
  then have "take j xs = take i xs @ take (j - i) (drop i xs)"
    using take_add [of i "j - i" xs] by simp
  then show ?thesis by simp
qed

lemma days_before_month_mono:
  "m \<le> n \<Longrightarrow> days_before_month y m \<le> days_before_month y n"
  unfolding days_before_month_def by (rule sum_list_take_mono) simp

lemma days_before_year_mono: "y \<le> y' \<Longrightarrow> days_before_year y \<le> days_before_year y'"
proof (induction "nat (y' - y)" arbitrary: y')
  case 0
  then have "y' = y" by simp
  then show ?case by simp
next
  case (Suc k)
  then have "k = nat ((y' - 1) - y)" "y \<le> y' - 1" by simp_all
  from Suc.hyps(1) [OF this] have "days_before_year y \<le> days_before_year (y' - 1)" .
  also have "\<dots> \<le> days_before_year y'"
    using days_before_year_Suc [of "y' - 1"] by simp
  finally show ?case .
qed

lemma month_from_inv:
  "month_from y m d = (m', d') \<Longrightarrow> 1 \<le> m \<Longrightarrow> m \<le> 12 \<Longrightarrow>
   days_before_month y m + d < days_in_year y \<Longrightarrow>
   days_before_month y m' + d' = days_before_month y m + d \<and> d' < days_in_month y m'
   \<and> 1 \<le> m' \<and> m' \<le> 12"
proof (induction y m d rule: month_from.induct)
  case (1 y m d)
  show ?case
  proof (cases "d < days_in_month y m")
    case True
    with "1.prems" show ?thesis by (simp add: month_from.simps [of y m d])
  next
    case False
    with "1.prems" have r: "month_from y (m + 1) (d - days_in_month y m) = (m', d')"
      by (simp add: month_from.simps [of y m d])
    have s: "days_before_month y (m + 1) = days_before_month y m + days_in_month y m"
      using "1.prems" by (simp add: days_before_month_Suc)
    have "m \<noteq> 12"
    proof
      assume "m = 12"
      with s have "days_before_month y 12 + days_in_month y 12 = days_in_year y"
        by (simp add: days_before_month_13)
      with False "1.prems" \<open>m = 12\<close> show False by simp
    qed
    with "1.prems" have m: "1 \<le> m + 1" "m + 1 \<le> 12" by simp_all
    have t: "days_before_month y (m + 1) + (d - days_in_month y m) < days_in_year y"
      using s False "1.prems" by simp
    from "1.IH" [OF False r m t] s False show ?thesis by simp
  qed
qed

lemma seconds_of_day:
  "(s :: nat) div 3600 * 3600 + s mod 3600 div 60 * 60 + s mod 60 = s"
proof -
  have "s mod 3600 mod 60 = s mod 60" by (rule mod_mod_cancel) simp
  then have "s mod 3600 div 60 * 60 + s mod 60 = s mod 3600"
    using div_mult_mod_eq [of "s mod 3600" 60] by simp
  then have a: "s mod 3600 div 60 * 60 + s mod 60 = s mod 3600" .
  have "s div 3600 * 3600 + s mod 3600 div 60 * 60 + s mod 60
        = s div 3600 * 3600 + (s mod 3600 div 60 * 60 + s mod 60)"
    by (simp only: add.assoc)
  also have "\<dots> = s div 3600 * 3600 + s mod 3600" by (simp only: a)
  also have "\<dots> = s" by (rule div_mult_mod_eq)
  finally show ?thesis .
qed

lemma gmtime_fields:
  "\<exists>y m dom.
     gmtime t = \<lparr> year = y, month = m, day = int dom + 1,
                  hour = int (t mod 86400 div 3600), minute = int (t mod 86400 mod 3600 div 60),
                  second = int (t mod 86400 mod 60), microsecond = 0 \<rparr>
     \<and> days_before_year y + int (days_before_month y m) + int dom = int (t div 86400)
     \<and> 1 \<le> m \<and> m \<le> 12 \<and> dom < month_lengths y ! nat (m - 1)"
proof -
  let ?days = "t div 86400"
  let ?k = "?days div 146097"
  let ?r = "?days mod 146097"
  obtain y doy where yf: "year_from (1 + 400 * int ?k) ?r = (y, doy)"
    by (cases "year_from (1 + 400 * int ?k) ?r") blast
  from year_from_inv [OF yf]
  have y1: "days_before_year y + int doy = days_before_year (1 + 400 * int ?k) + int ?r"
    and y2: "doy < days_in_year y" by simp_all
  have "146097 * int ?k + int ?r = int (146097 * ?k + ?r)"
    by (simp only: of_nat_add of_nat_mult of_nat_numeral)
  also have "146097 * ?k + ?r = ?days" by (rule mult_div_mod_eq)
  finally have "146097 * int ?k + int ?r = int ?days" .
  with y1 have y3: "days_before_year y + int doy = int ?days"
    by (simp only: days_before_year_cycle)
  obtain m dom where mf: "month_from y 1 doy = (m, dom)"
    by (cases "month_from y 1 doy") blast
  have "days_before_month y 1 + doy < days_in_year y"
    using y2 by (simp add: days_before_month_1)
  from month_from_inv [OF mf _ _ this]
  have m1: "days_before_month y m + dom = doy" and m2': "dom < days_in_month y m"
    and m3: "1 \<le> m" "m \<le> 12"
    by (simp_all add: days_before_month_1)
  from m2' have m2: "dom < month_lengths y ! nat (m - 1)"
    by (simp only: days_in_month_table [OF m3])
  have g: "gmtime t = \<lparr> year = y, month = m, day = int dom + 1,
                  hour = int (t mod 86400 div 3600), minute = int (t mod 86400 mod 3600 div 60),
                  second = int (t mod 86400 mod 60), microsecond = 0 \<rparr>"
    by (simp add: gmtime_def Let_def yf mf)
  from m1 have "int (days_before_month y m) + int dom = int doy" by simp
  with y3 have "days_before_year y + int (days_before_month y m) + int dom = int ?days" by simp
  with g m2 m3 show ?thesis by blast
qed

lemma timegm_gmtime: "timegm (gmtime t) = int t - 62135596800"
proof -
  from gmtime_fields [of t] obtain y m dom where
    g: "gmtime t = \<lparr> year = y, month = m, day = int dom + 1,
                  hour = int (t mod 86400 div 3600), minute = int (t mod 86400 mod 3600 div 60),
                  second = int (t mod 86400 mod 60), microsecond = 0 \<rparr>"
    and d: "days_before_year y + int (days_before_month y m) + int dom = int (t div 86400)"
    by blast
  let ?s = "t mod 86400"
  have "int (?s div 3600) * 3600 + int (?s mod 3600 div 60) * 60 + int (?s mod 60)
        = int (?s div 3600 * 3600 + ?s mod 3600 div 60 * 60 + ?s mod 60)"
    by (simp only: of_nat_add of_nat_mult of_nat_numeral)
  also have "\<dots> = int ?s" by (simp only: seconds_of_day)
  finally have s: "int (?s div 3600) * 3600 + int (?s mod 3600 div 60) * 60 + int (?s mod 60)
        = int ?s" .
  have "int (t div 86400) * 86400 + int ?s = int (t div 86400 * 86400 + ?s)"
    by (simp only: of_nat_add of_nat_mult of_nat_numeral)
  also have "t div 86400 * 86400 + ?s = t" by (rule div_mult_mod_eq)
  finally have t: "int (t div 86400) * 86400 + int ?s = int t" .
  have "timegm (gmtime t)
        = (days_before_year y + int (days_before_month y m) + int dom) * 86400
          + (int (?s div 3600) * 3600 + int (?s mod 3600 div 60) * 60 + int (?s mod 60))
          - 62135596800"
    by (simp add: timegm_def g)
  also have "\<dots> = int (t div 86400) * 86400 + int ?s - 62135596800"
    by (simp only: d s)
  also have "\<dots> = int t - 62135596800" by (simp only: t)
  finally show ?thesis .
qed

lemma utcfromtimestamp_inverse:
  "utcfromtimestamp t = Inr dt \<Longrightarrow> valid_datetime dt \<and> timegm dt = t"
proof -
  assume u: "utcfromtimestamp t = Inr dt"
  then have r: "- 62135596800 \<le> t" and dt: "dt = gmtime (nat (t + 62135596800))"
    by (auto simp: utcfromtimestamp_def split: if_splits)
  let ?n = "nat (t + 62135596800)"
  from r have n: "int ?n = t + 62135596800" by simp
  have inv: "timegm dt = t"
    unfolding dt timegm_gmtime n by simp
  from gmtime_fields [of ?n] obtain y m dom where
    g: "gmtime ?n = \<lparr> year = y, month = m, day = int dom + 1,
                  hour = int (?n mod 86400 div 3600), minute = int (?n mod 86400 mod 3600 div 60),
                  second = int (?n mod 86400 mod 60), microsecond = 0 \<rparr>"
    and m: "1 \<le> m" "m \<le> 12" "dom < month_lengths y ! nat (m - 1)"
    by blast
  have h: "?n mod 86400 div 3600 < 24"
  proof -
    have "?n mod 86400 < 24 * 3600" by simp
    then show ?thesis by (simp only: less_mult_imp_div_less)
  qed
  have mi: "?n mod 86400 mod 3600 div 60 < 60"
  proof -
    have "?n mod 86400 mod 3600 < 60 * 60" by simp
    then show ?thesis by (simp only: less_mult_imp_div_less)
  qed
  from m h mi have "valid_datetime dt"
    unfolding dt g by (simp add: valid_datetime_def)
  with inv show ?thesis by simp
qed

text \<open>
  Conversely, a valid date and time is determined by its distance from the epoch: no
  two of them lie the same number of seconds after it.
\<close>

lemma split_div_mod:
  fixes a a' b b' n :: int
  assumes e: "a * n + b = a' * n + b'"
    and b: "0 \<le> b" "b < n" and b': "0 \<le> b'" "b' < n"
  shows "a = a' \<and> b = b'"
proof -
  have "a * n + b = n * a + b" by simp
  then have 1: "(a * n + b) div n = a" using b by (rule int_div_pos_eq)
  have "a' * n + b' = n * a' + b'" by simp
  then have 2: "(a' * n + b') div n = a'" using b' by (rule int_div_pos_eq)
  from e 1 2 have "a = a'" by simp
  with e show ?thesis by simp
qed

lemma day_of_year_bounds:
  assumes v: "valid_datetime dt"
  shows "int (days_before_month (year dt) (month dt)) \<le>
           int (days_before_month (year dt) (month dt)) + (day dt - 1)"
    and "int (days_before_month (year dt) (month dt)) + (day dt - 1)
           < int (days_before_month (year dt) (month dt + 1))"
    and "int (days_before_month (year dt) (month dt + 1)) \<le> int (days_in_year (year dt))"
proof -
  from v have m: "1 \<le> month dt" "month dt \<le> 12"
    and d: "1 \<le> day dt" "day dt \<le> int (month_lengths (year dt) ! nat (month dt - 1))"
    by (simp_all add: valid_datetime_def)
  from d show "int (days_before_month (year dt) (month dt)) \<le>
           int (days_before_month (year dt) (month dt)) + (day dt - 1)" by simp
  have s: "days_before_month (year dt) (month dt + 1)
      = days_before_month (year dt) (month dt) + month_lengths (year dt) ! nat (month dt - 1)"
    by (simp only: days_before_month_Suc [OF m] days_in_month_table [OF m])
  from d show "int (days_before_month (year dt) (month dt)) + (day dt - 1)
           < int (days_before_month (year dt) (month dt + 1))"
    by (simp add: s)
  from m have "month dt + 1 \<le> 13" by simp
  then have "days_before_month (year dt) (month dt + 1) \<le> days_before_month (year dt) 13"
    by (rule days_before_month_mono)
  then show "int (days_before_month (year dt) (month dt + 1)) \<le> int (days_in_year (year dt))"
    by (simp add: days_before_month_13)
qed

lemma timegm_inj:
  assumes va: "valid_datetime a" and vb: "valid_datetime b" and e: "timegm a = timegm b"
  shows "a = b"
proof -
  define da where "da = int (days_before_month (year a) (month a)) + (day a - 1)"
  define db where "db = int (days_before_month (year b) (month b)) + (day b - 1)"
  define ta where "ta = (hour a * 60 + minute a) * 60 + second a"
  define tb where "tb = (hour b * 60 + minute b) * 60 + second b"
  from va have ra: "0 \<le> second a" "second a < 60" "0 \<le> minute a" "minute a < 60"
    "0 \<le> hour a" "hour a < 24" "microsecond a = 0"
    by (simp_all add: valid_datetime_def)
  from vb have rb: "0 \<le> second b" "second b < 60" "0 \<le> minute b" "minute b < 60"
    "0 \<le> hour b" "hour b < 24" "microsecond b = 0"
    by (simp_all add: valid_datetime_def)
  from ra have ta: "0 \<le> ta" "ta < 86400" by (simp_all add: ta_def)
  from rb have tb: "0 \<le> tb" "tb < 86400" by (simp_all add: tb_def)
  from e have "(days_before_year (year a) + da) * 86400 + ta
             = (days_before_year (year b) + db) * 86400 + tb"
    by (simp add: timegm_def da_def db_def ta_def tb_def algebra_simps)
  from split_div_mod [OF this ta tb]
  have c: "days_before_year (year a) + da = days_before_year (year b) + db" and t: "ta = tb"
    by simp_all
  \<comment> \<open>the time of day\<close>
  from t have "(hour a * 60 + minute a) * 60 + second a
             = (hour b * 60 + minute b) * 60 + second b"
    by (simp only: ta_def tb_def)
  from split_div_mod [OF this ra(1,2) rb(1,2)]
  have hm: "hour a * 60 + minute a = hour b * 60 + minute b" and s: "second a = second b"
    by simp_all
  from split_div_mod [OF hm ra(3,4) rb(3,4)]
  have h: "hour a = hour b" and mi: "minute a = minute b" by simp_all
  \<comment> \<open>the year\<close>
  note ba = day_of_year_bounds [OF va, folded da_def]
  note bb = day_of_year_bounds [OF vb, folded db_def]
  have ya: "days_before_year (year a) \<le> days_before_year (year a) + da"
    "days_before_year (year a) + da < days_before_year (year a + 1)"
    using ba by (simp_all add: days_before_year_Suc)
  have yb: "days_before_year (year b) \<le> days_before_year (year b) + db"
    "days_before_year (year b) + db < days_before_year (year b + 1)"
    using bb by (simp_all add: days_before_year_Suc)
  have y: "year a = year b"
  proof (rule ccontr)
    assume "year a \<noteq> year b"
    then consider "year a + 1 \<le> year b" | "year b + 1 \<le> year a" by linarith
    then show False
    proof cases
      case 1
      then have "days_before_year (year a + 1) \<le> days_before_year (year b)"
        by (rule days_before_year_mono)
      with ya yb c show False by simp
    next
      case 2
      then have "days_before_year (year b + 1) \<le> days_before_year (year a)"
        by (rule days_before_year_mono)
      with ya yb c show False by simp
    qed
  qed
  \<comment> \<open>the month and the day\<close>
  from c y have d: "da = db" by simp
  have m: "month a = month b"
  proof (rule ccontr)
    assume "month a \<noteq> month b"
    then consider "month a + 1 \<le> month b" | "month b + 1 \<le> month a" by linarith
    then show False
    proof cases
      case 1
      then have "days_before_month (year a) (month a + 1)
          \<le> days_before_month (year a) (month b)"
        by (rule days_before_month_mono)
      with ba(2) bb(1) d y show False by simp
    next
      case 2
      then have "days_before_month (year a) (month b + 1)
          \<le> days_before_month (year a) (month a)"
        by (rule days_before_month_mono)
      with bb(2) ba(1) d y show False by simp
    qed
  qed
  from d y m have dd: "day a = day b" by (simp add: da_def db_def)
  from y m dd h mi s ra(7) rb(7) show ?thesis by simp
qed

subsection \<open>Hexadecimal digits\<close>

lemma hex_pair_examples:
  "hex_pair 0x00 = ''00''" "hex_pair 0xAB = ''AB''" "hex_pair 0xCD = ''CD''"
  "hex_pair 0xEF = ''EF''" "hex_pair 0x01 = ''01''" "hex_pair 0x23 = ''23''"
  "hex_pair 0x45 = ''45''"
  by (simp_all add: hex_pair_def hexdigit_def)

subsection \<open>The name\<close>

lemma cons_cp_error: "cons_cp c r = Inl e \<Longrightarrow> r = Inl e"
  by (cases r) (simp_all add: cons_cp_def bind_err_def)

lemma decode_utf8_step:
  "decode_utf8 (b0 # bs) = Inl UnicodeDecodeError
   \<or> (\<exists>c r. decode_utf8 (b0 # bs) = cons_cp c (decode_utf8 r) \<and> length r \<le> length bs)"
proof -
  have ex: "decode_utf8 (b0 # bs) = cons_cp c (decode_utf8 r) \<Longrightarrow> length r \<le> length bs
            \<Longrightarrow> ?thesis" for c r
    by blast
  consider (ascii) "b0 < 0x80"
    | (two) "\<not> b0 < 0x80" "0xC2 \<le> b0 \<and> b0 \<le> 0xDF"
    | (three) "\<not> b0 < 0x80" "\<not> (0xC2 \<le> b0 \<and> b0 \<le> 0xDF)" "0xE0 \<le> b0 \<and> b0 \<le> 0xEF"
    | (four) "\<not> b0 < 0x80" "\<not> (0xC2 \<le> b0 \<and> b0 \<le> 0xDF)" "\<not> (0xE0 \<le> b0 \<and> b0 \<le> 0xEF)"
        "0xF0 \<le> b0 \<and> b0 \<le> 0xF4"
    | (bad) "\<not> b0 < 0x80" "\<not> (0xC2 \<le> b0 \<and> b0 \<le> 0xDF)" "\<not> (0xE0 \<le> b0 \<and> b0 \<le> 0xEF)"
        "\<not> (0xF0 \<le> b0 \<and> b0 \<le> 0xF4)"
    by blast
  then show ?thesis
  proof cases
    case ascii
    then have "decode_utf8 (b0 # bs) = cons_cp (unat b0) (decode_utf8 bs)" by simp
    then show ?thesis by (rule ex) simp
  next
    case two
    show ?thesis
    proof (cases bs)
      case Nil
      then show ?thesis by (simp add: two)
    next
      case (Cons b1 r)
      show ?thesis
      proof (cases "is_cont b1")
        case True
        have "decode_utf8 (b0 # bs)
            = cons_cp ((unat b0 mod 32) * 64 + cont_bits b1) (decode_utf8 r)" by (simp add: two Cons True)
        then show ?thesis by (rule ex) (simp add: Cons)
      next
        case False
        then show ?thesis by (simp add: two Cons)
      qed
    qed
  next
    case three
    show ?thesis
    proof (cases "\<exists>b1 b2 r. bs = b1 # b2 # r")
      case False
      have "bs = [] \<or> (\<exists>b1. bs = [b1])"
      proof (cases bs)
        case Nil
        then show ?thesis by simp
      next
        case c1: (Cons b1 r1)
        with False have "r1 = []" by (cases r1) simp_all
        with c1 show ?thesis by simp
      qed
      then show ?thesis
      proof
        assume "bs = []"
        then show ?thesis by (simp add: three)
      next
        assume "\<exists>b1. bs = [b1]"
        then obtain b1 where "bs = [b1]" by blast
        then show ?thesis by (simp add: three)
      qed
    next
      case True
      then obtain b1 b2 r where bs: "bs = b1 # b2 # r" by blast
      define ok where "ok \<longleftrightarrow> (if b0 = 0xE0 then 0xA0 else 0x80) \<le> b1
                \<and> b1 \<le> (if b0 = 0xED then 0x9F else 0xBF) \<and> is_cont b2"
      have eq: "decode_utf8 (b0 # bs)
            = (if ok then cons_cp ((unat b0 mod 16) * 4096 + cont_bits b1 * 64 + cont_bits b2)
                 (decode_utf8 r) else Inl UnicodeDecodeError)"
        by (simp add: three bs ok_def)
      show ?thesis
      proof (cases ok)
        case True
        with eq have "decode_utf8 (b0 # bs)
            = cons_cp ((unat b0 mod 16) * 4096 + cont_bits b1 * 64 + cont_bits b2)
                (decode_utf8 r)" by simp
        then show ?thesis by (rule ex) (simp add: bs)
      next
        case False
        with eq have "decode_utf8 (b0 # bs) = Inl UnicodeDecodeError" by simp
        then show ?thesis by (rule disjI1)
      qed
    qed
  next
    case four
    show ?thesis
    proof (cases "\<exists>b1 b2 b3 r. bs = b1 # b2 # b3 # r")
      case False
      have "bs = [] \<or> (\<exists>b1. bs = [b1]) \<or> (\<exists>b1 b2. bs = [b1, b2])"
      proof (cases bs)
        case Nil
        then show ?thesis by simp
      next
        case c1: (Cons b1 r1)
        show ?thesis
        proof (cases r1)
          case Nil
          with c1 show ?thesis by simp
        next
          case c2: (Cons b2 r2)
          with c1 False have "r2 = []" by (cases r2) simp_all
          with c1 c2 show ?thesis by simp
        qed
      qed
      then consider "bs = []" | b1 where "bs = [b1]" | b1 b2 where "bs = [b1, b2]"
        by blast
      then show ?thesis
      proof cases
        case 1
        then show ?thesis by (simp add: four)
      next
        case 2
        then show ?thesis by (simp add: four)
      next
        case 3
        then show ?thesis by (simp add: four)
      qed
    next
      case True
      then obtain b1 b2 b3 r where bs: "bs = b1 # b2 # b3 # r" by blast
      define ok where "ok \<longleftrightarrow> (if b0 = 0xF0 then 0x90 else 0x80) \<le> b1
                \<and> b1 \<le> (if b0 = 0xF4 then 0x8F else 0xBF) \<and> is_cont b2 \<and> is_cont b3"
      have eq: "decode_utf8 (b0 # bs)
            = (if ok then cons_cp ((unat b0 mod 8) * 262144 + cont_bits b1 * 4096
                         + cont_bits b2 * 64 + cont_bits b3) (decode_utf8 r)
               else Inl UnicodeDecodeError)"
        by (simp add: four bs ok_def)
      show ?thesis
      proof (cases ok)
        case True
        with eq have "decode_utf8 (b0 # bs)
            = cons_cp ((unat b0 mod 8) * 262144 + cont_bits b1 * 4096
                         + cont_bits b2 * 64 + cont_bits b3) (decode_utf8 r)" by simp
        then show ?thesis by (rule ex) (simp add: bs)
      next
        case False
        with eq have "decode_utf8 (b0 # bs) = Inl UnicodeDecodeError" by simp
        then show ?thesis by (rule disjI1)
      qed
    qed
  next
    case bad
    show ?thesis by (simp add: bad)
  qed
qed

lemma decode_utf8_error: "decode_utf8 bs = Inl e \<Longrightarrow> e = UnicodeDecodeError"
proof (induction bs arbitrary: e rule: length_induct)
  case (1 bs)
  show ?case
  proof (cases bs)
    case Nil
    with 1 show ?thesis by simp
  next
    case (Cons b0 bs')
    from decode_utf8_step [of b0 bs'] show ?thesis
    proof
      assume "decode_utf8 (b0 # bs') = Inl UnicodeDecodeError"
      with 1(2) Cons show ?thesis by simp
    next
      assume "\<exists>c r. decode_utf8 (b0 # bs') = cons_cp c (decode_utf8 r) \<and> length r \<le> length bs'"
      then obtain c r where
        s: "decode_utf8 (b0 # bs') = cons_cp c (decode_utf8 r)" "length r \<le> length bs'"
        by blast
      from 1(2) Cons s(1) have "cons_cp c (decode_utf8 r) = Inl e" by simp
      then have "decode_utf8 r = Inl e" by (rule cons_cp_error)
      moreover from s(2) Cons have "length r < length bs" by simp
      ultimately show ?thesis using 1(1) by blast
    qed
  qed
qed

lemma decode_utf8_ascii: "\<forall>b\<in>set bs. b < 0x80 \<Longrightarrow> decode_utf8 bs = Inr (map unat bs)"
  by (induction bs) (simp_all add: cons_cp_def bind_err_def)

lemma decode_utf8_FF: "decode_utf8 (0xFF # bs) = Inl UnicodeDecodeError"
  by simp

subsection \<open>The decoder on a buffer of 128 bytes\<close>

lemma parse_user_data_128:
  "length buf = 128 \<Longrightarrow>
   parse_user_data buf
   = bind_err (decode_utf8 (bytes_slice buf 0x23 (bytes_find buf [0] 0x23))) (\<lambda>nm. Inr (decoded buf nm))"
  by (cases "decode_utf8 (bytes_slice buf 0x23 (bytes_find buf [0] 0x23))")
     (simp_all add: parse_user_data_def unpack_version unpack_timestamps unpack_id_bytes
        bind_err_def fmt_02X_byte utcfromtimestamp_u32 decoded_def)

lemma parse_user_data_cases:
  "length buf = 128 \<Longrightarrow>
   parse_user_data buf = Inl UnicodeDecodeError \<or> (\<exists>nm. parse_user_data buf = Inr (decoded buf nm))"
proof -
  assume len: "length buf = 128"
  show ?thesis
  proof (cases "decode_utf8 (bytes_slice buf 0x23 (bytes_find buf [0] 0x23))")
    case (Inl e)
    then have "e = UnicodeDecodeError" by (rule decode_utf8_error)
    with Inl len show ?thesis by (simp add: parse_user_data_128 bind_err_def)
  next
    case (Inr nm)
    with len have "parse_user_data buf = Inr (decoded buf nm)"
      by (simp add: parse_user_data_128 bind_err_def)
    then show ?thesis by blast
  qed
qed

lemma parse_user_data_short: "length buf \<noteq> 128 \<Longrightarrow> parse_user_data buf = Inl ValueError"
  by (simp add: parse_user_data_def)

lemma parse_user_data_success:
  "parse_user_data buf = Inr r \<Longrightarrow> length buf = 128 \<and> (\<exists>nm. r = decoded buf nm)"
proof -
  assume ok: "parse_user_data buf = Inr r"
  have len: "length buf = 128"
  proof (rule ccontr)
    assume "length buf \<noteq> 128"
    then have "parse_user_data buf = Inl ValueError" by (rule parse_user_data_short)
    with ok show False by simp
  qed
  from parse_user_data_cases [OF len] ok have "\<exists>nm. r = decoded buf nm" by auto
  with len show ?thesis by simp
qed

text \<open>
  Claim C7. A buffer whose length is not exactly 128 bytes is refused with the
  \<^verbatim>\<open>ValueError\<close> of line 63 (the decoder's length error). The check is the first
  statement of the function, so no field is read before it, and the result is the error
  alone, with no record.
\<close>

theorem wrong_length:
  "length buf \<noteq> 0x80 \<Longrightarrow> parse_user_data buf = Inl ValueError"
  by (simp add: parse_user_data_def)

theorem wrong_length_witness:
  "length (replicate 127 (0 :: byte)) \<noteq> 0x80
   \<and> parse_user_data (replicate 127 0) = Inl ValueError
   \<and> length (replicate 129 (0 :: byte)) \<noteq> 0x80
   \<and> parse_user_data (replicate 129 0) = Inl ValueError"
proof -
  have a: "length (replicate 127 (0 :: byte)) \<noteq> 0x80" by simp
  have b: "length (replicate 129 (0 :: byte)) \<noteq> 0x80" by simp
  from wrong_length [OF a] wrong_length [OF b] a b show ?thesis by (intro conjI)
qed

subsection \<open>The version field\<close>

text \<open>
  Line 65 binds the tuple that \<^verbatim>\<open>unpack_from\<close> returns, not its element, and line 66
  compares that tuple with the int \<open>0\<close>. The comparison is false for every buffer, so
  the \<^verbatim>\<open>NotImplementedError\<close> of line 67 is never raised.
\<close>

lemma version_check_dead: "parse_user_data buf \<noteq> Inl NotImplementedError"
proof (cases "length buf = 128")
  case True
  from parse_user_data_cases [OF True] show ?thesis by auto
next
  case False
  then show ?thesis by (simp add: parse_user_data_short)
qed

lemma zeros_find: "bytes_find (replicate 128 0) [0] 0x23 = 35"
  by code_simp

lemma zeros_decoded:
  "decoded (replicate 128 0) nm
   = \<lparr> ts1 = epoch, ts2 = epoch, id' = ''00-0000-0000-00'', name = nm \<rparr>"
  by (simp add: decoded_def u32_le_at_def hex_pair_examples gmtime_epoch)

lemma zeros_parse:
  "parse_user_data (replicate 128 0)
   = Inr \<lparr> ts1 = epoch, ts2 = epoch, id' = ''00-0000-0000-00'', name = [] \<rparr>"
  by (simp add: parse_user_data_128 zeros_find bytes_slice_def clamp_index_def bind_err_def
      zeros_decoded)

text \<open>
  Claim C1 says that a 128-byte buffer whose 16-bit field at offset \<open>0x03\<close> is 0 is
  refused with the version error. The code does not do so: on the buffer of 128 zero
  bytes, whose version field is 0, it returns a record.
\<close>

theorem version_zero_accepted:
  "u16_le_at (replicate 128 0) 0x03 = 0
   \<and> parse_user_data (replicate 128 0)
     = Inr \<lparr> ts1 = epoch, ts2 = epoch, id' = ''00-0000-0000-00'', name = [] \<rparr>"
  by (simp add: u16_le_at_def zeros_parse)

subsection \<open>A buffer without terminator\<close>

text \<open>
  When no NUL byte follows offset \<open>0x23\<close>, \<^verbatim>\<open>buf.find\<close> returns \<open>-1\<close>, which line 71
  uses as the end of the slice. No error is raised for the missing terminator: the
  buffer below, which has no NUL byte from \<open>0x23\<close> on, decodes to a record. This is
  the input on which claim C2, as the specification states it, fails.
\<close>

lemma no_nul_find: "bytes_find (replicate 35 0 @ replicate 93 0x41) [0] 0x23 = - 1"
  by code_simp

lemma no_nul_parse:
  "parse_user_data (replicate 35 0 @ replicate 93 0x41)
   = Inr \<lparr> ts1 = epoch, ts2 = epoch, id' = ''00-0000-0000-00'', name = replicate 92 65 \<rparr>"
proof -
  let ?B = "replicate 35 0 @ replicate 93 0x41 :: byte list"
  have len: "length ?B = 128" by simp
  have sl: "bytes_slice ?B 0x23 (- 1) = replicate 92 0x41"
    by (simp add: bytes_slice_def clamp_index_def)
  have dec: "decode_utf8 (replicate 92 0x41) = Inr (replicate 92 65)"
    using decode_utf8_ascii [of "replicate 92 0x41"] by simp
  have d: "decoded ?B nm = \<lparr> ts1 = epoch, ts2 = epoch, id' = ''00-0000-0000-00'', name = nm \<rparr>"
    for nm
    by (simp add: decoded_def u32_le_at_def nth_append hex_pair_examples gmtime_epoch)
  show ?thesis
    by (simp add: parse_user_data_128 [OF len] no_nul_find sl dec bind_err_def d)
qed

theorem no_terminator_counterexample:
  "length (replicate 35 0 @ replicate 93 (0x41 :: byte)) = 128
   \<and> 0 \<notin> set (drop 0x23 (replicate 35 0 @ replicate 93 (0x41 :: byte)))
   \<and> parse_user_data (replicate 35 0 @ replicate 93 0x41)
     = Inr \<lparr> ts1 = epoch, ts2 = epoch, id' = ''00-0000-0000-00'', name = replicate 92 65 \<rparr>"
  using no_nul_parse by simp

text \<open>
  Claim C2, amended. For a 128-byte buffer with no NUL byte from offset \<open>0x23\<close> to its
  end, the decoder raises no error for the missing terminator: it either fails with
  the UTF-8 decoding error or returns a complete record, whose timestamps and identifier
  are those of the buffer. No partial record is returned.
\<close>

theorem no_terminator:
  "length buf = 128 \<Longrightarrow> 0 \<notin> set (drop 0x23 buf) \<Longrightarrow>
   parse_user_data buf = Inl UnicodeDecodeError
   \<or> (\<exists>nm. parse_user_data buf = Inr (decoded buf nm))"
  by (rule parse_user_data_cases)

lemma no_nul_FF_find: "bytes_find (replicate 35 0 @ replicate 93 0xFF) [0] 0x23 = - 1"
  by code_simp

lemma no_nul_FF_parse:
  "parse_user_data (replicate 35 0 @ replicate 93 0xFF) = Inl UnicodeDecodeError"
proof -
  let ?B = "replicate 35 0 @ replicate 93 0xFF :: byte list"
  have len: "length ?B = 128" by simp
  have "replicate (Suc 91) (0xFF :: byte) = 0xFF # replicate 91 0xFF" by (rule replicate_Suc)
  then have r: "replicate 92 (0xFF :: byte) = 0xFF # replicate 91 0xFF" by simp
  have "bytes_slice ?B 0x23 (- 1) = replicate 92 0xFF"
    by (simp add: bytes_slice_def clamp_index_def)
  with r have sl: "bytes_slice ?B 0x23 (- 1) = 0xFF # replicate 91 0xFF" by simp
  show ?thesis
    by (simp only: parse_user_data_128 [OF len] no_nul_FF_find sl decode_utf8_FF)
       (simp add: bind_err_def)
qed

theorem no_terminator_witness:
  "length (replicate 35 0 @ replicate 93 (0xFF :: byte)) = 128
   \<and> 0 \<notin> set (drop 0x23 (replicate 35 0 @ replicate 93 (0xFF :: byte)))
   \<and> parse_user_data (replicate 35 0 @ replicate 93 0xFF) = Inl UnicodeDecodeError"
proof -
  let ?B = "replicate 35 0 @ replicate 93 0xFF :: byte list"
  have len: "length ?B = 128" by simp
  have nn: "0 \<notin> set (drop 0x23 ?B)" by simp
  from no_terminator [OF len nn] no_nul_FF_parse len nn show ?thesis by simp
qed

subsection \<open>The identifier\<close>





subsection \<open>The timestamps\<close>

text \<open>
  Claim C6. In every record decoded from a buffer, \<^verbatim>\<open>ts1\<close> is the UTC instant of the
  unsigned 32-bit little-endian seconds at offset \<open>0x11\<close> and \<^verbatim>\<open>ts2\<close> that of the
  seconds at offset \<open>0x19\<close>; the four bytes at \<open>0x15\<close> are not used. Each of the two is
  a valid date and time of the calendar that lies exactly that many seconds after the
  epoch, and it is the only one that does. A field of 0 gives the instant
  1970-01-01T00:00:00: both fields of the record are instants, never an absent value.
\<close>

theorem timestamps_decoded:
  "parse_user_data buf = Inr r \<Longrightarrow>
   utcfromtimestamp (u32_le_at buf 0x11) = Inr (ts1 r)
   \<and> utcfromtimestamp (u32_le_at buf 0x19) = Inr (ts2 r)
   \<and> valid_datetime (ts1 r) \<and> timegm (ts1 r) = u32_le_at buf 0x11
   \<and> valid_datetime (ts2 r) \<and> timegm (ts2 r) = u32_le_at buf 0x19
   \<and> (\<forall>dt. valid_datetime dt \<and> timegm dt = u32_le_at buf 0x11 \<longrightarrow> dt = ts1 r)
   \<and> (\<forall>dt. valid_datetime dt \<and> timegm dt = u32_le_at buf 0x19 \<longrightarrow> dt = ts2 r)
   \<and> (u32_le_at buf 0x11 = 0 \<longrightarrow> ts1 r = epoch)
   \<and> (u32_le_at buf 0x19 = 0 \<longrightarrow> ts2 r = epoch)"
proof -
  assume "parse_user_data buf = Inr r"
  then obtain nm where "r = decoded buf nm"
    using parse_user_data_success by blast
  then have u: "utcfromtimestamp (u32_le_at buf 0x11) = Inr (ts1 r)"
    "utcfromtimestamp (u32_le_at buf 0x19) = Inr (ts2 r)"
    by (simp_all add: decoded_def utcfromtimestamp_u32)
  from utcfromtimestamp_inverse [OF u(1)]
  have v1: "valid_datetime (ts1 r)" and t1: "timegm (ts1 r) = u32_le_at buf 0x11"
    by simp_all
  from utcfromtimestamp_inverse [OF u(2)]
  have v2: "valid_datetime (ts2 r)" and t2: "timegm (ts2 r) = u32_le_at buf 0x19"
    by simp_all
  have q1: "dt = ts1 r" if "valid_datetime dt \<and> timegm dt = u32_le_at buf 0x11" for dt
  proof -
    from that t1 have "timegm dt = timegm (ts1 r)" by simp
    with that v1 show ?thesis by (intro timegm_inj) simp_all
  qed
  have q2: "dt = ts2 r" if "valid_datetime dt \<and> timegm dt = u32_le_at buf 0x19" for dt
  proof -
    from that t2 have "timegm dt = timegm (ts2 r)" by simp
    with that v2 show ?thesis by (intro timegm_inj) simp_all
  qed
  have z1: "ts1 r = epoch" if "u32_le_at buf 0x11 = 0"
    using u(1) that utcfromtimestamp_0 by simp
  have z2: "ts2 r = epoch" if "u32_le_at buf 0x19 = 0"
    using u(2) that utcfromtimestamp_0 by simp
  from u v1 t1 v2 t2 q1 q2 z1 z2 show ?thesis by blast
qed

lemma stamped_name:
  "decode_utf8 (bytes_slice stamped 0x23 (bytes_find stamped [0] 0x23)) = Inr []"
  by code_simp

lemma stamped_parse:
  "parse_user_data stamped
   = Inr \<lparr> ts1 = epoch \<lparr> day := 2 \<rparr>, ts2 = epoch, id' = ''00-0000-0000-00'', name = [] \<rparr>"
proof -
  have len: "length stamped = 128" by (simp add: stamped_def)
  have d: "decoded stamped nm
           = \<lparr> ts1 = epoch \<lparr> day := 2 \<rparr>, ts2 = epoch, id' = ''00-0000-0000-00'', name = nm \<rparr>"
    for nm
    by (simp add: decoded_def stamped_def u32_le_at_def nth_append hex_pair_examples
        gmtime_epoch gmtime_next_day)
  show ?thesis
    by (simp add: parse_user_data_128 [OF len] stamped_name bind_err_def d)
qed

theorem timestamps_decoded_witness:
  "parse_user_data stamped
   = Inr \<lparr> ts1 = epoch \<lparr> day := 2 \<rparr>, ts2 = epoch, id' = ''00-0000-0000-00'', name = [] \<rparr>
   \<and> u32_le_at stamped 0x11 = 86400 \<and> u32_le_at stamped 0x15 = 4294967295
   \<and> u32_le_at stamped 0x19 = 0
   \<and> utcfromtimestamp 86400 = Inr (epoch \<lparr> day := 2 \<rparr>)
   \<and> utcfromtimestamp 0 = Inr epoch
   \<and> valid_datetime (epoch \<lparr> day := 2 \<rparr>) \<and> timegm (epoch \<lparr> day := 2 \<rparr>) = 86400
   \<and> valid_datetime epoch \<and> timegm epoch = 0"
proof -
  have u: "u32_le_at stamped 0x11 = 86400" "u32_le_at stamped 0x15 = 4294967295"
    "u32_le_at stamped 0x19 = 0"
    by (simp_all add: stamped_def u32_le_at_def nth_append)
  from timestamps_decoded [OF stamped_parse] u stamped_parse show ?thesis by simp
qed

section \<open>The orchestrator\<close>









end
